theory Spec2Isabelle
  imports Main "HOL-Library.Word" "HOL-Library.Char_ord" "HOL-Library.List_Lexorder"
begin

section \<open>lib/cstring.h: the interned string handle\<close>

text \<open>
  A \<open>cstring\<close> holds one pointer \<open>str\<close>, either null or the address of an interned,
  zero-terminated byte string. \<open>None\<close> is the null cstring; \<open>Some bs\<close> points at the
  bytes \<open>bs\<close> that were interned, which the table stores followed by the terminator.
  The constructors taking a length copy that many bytes, so \<open>bs\<close> itself may hold a zero
  byte; \<open>strlen\<close> then stops there.
\<close>

type_synonym cstring = "char list option"

definition NUL :: char where
  "NUL = CHR 0x00"

definition c_mem :: "char list \<Rightarrow> char list" where
  \<comment> \<open>the allocated object \<open>str\<close> points at: the bytes and their terminator\<close>
  "c_mem bs = bs @ [NUL]"

definition strlen :: "char list \<Rightarrow> nat" where
  "strlen mem = length (takeWhile (\<lambda>c. c \<noteq> NUL) mem)"

definition deref :: "char list \<Rightarrow> nat \<Rightarrow> char option" where
  \<comment> \<open>\<open>str[i]\<close>: a read inside the allocated object gives its byte, any other read is
      out of bounds (\<open>None\<close>)\<close>
  "deref mem i = (if i < length mem then Some (mem ! i) else None)"

definition cstring_size :: "cstring \<Rightarrow> nat" where
  \<comment> \<open>\<open>size_t size() const { return str ? strlen(str) : 0; }\<close>\<close>
  "cstring_size s = (case s of None \<Rightarrow> 0 | Some bs \<Rightarrow> strlen (c_mem bs))"

definition cstring_string :: "cstring \<Rightarrow> string" where
  \<comment> \<open>\<open>std::string string() const { return str ? std::string(str) : std::string(""); }\<close>\<close>
  "cstring_string s =
     (case s of None \<Rightarrow> [] | Some bs \<Rightarrow> take (strlen (c_mem bs)) (c_mem bs))"

definition cstring_get :: "cstring \<Rightarrow> 32 word \<Rightarrow> char option" where
  \<comment> \<open>\<open>char get(unsigned index) const { return (index < size()) ? str[index] : 0; }\<close>;
      the comparison is made in \<open>size_t\<close>, to which the 32-bit index converts unchanged.
      Reading through a null \<open>str\<close> is a failed read as well.\<close>
  "cstring_get s index =
     (if unat index < cstring_size s
      then (case s of None \<Rightarrow> None | Some bs \<Rightarrow> deref (c_mem bs) (unat index))
      else Some NUL)"

section \<open>Containers of the C++ library\<close>

text \<open>
  \<open>std::set<T>\<close> compares with \<open>T::operator<\<close> and keeps its elements in ascending
  order, so a set value is the list of its elements as iteration visits them. \<open>insert\<close>
  and \<open>emplace\<close> look for the first element that is not less than the new one; the new
  element goes in front of it when it is less than that element, and is dropped when the
  two are equivalent (neither is less than the other).
\<close>

fun set_insert :: "('a \<Rightarrow> 'a \<Rightarrow> bool) \<Rightarrow> 'a \<Rightarrow> 'a list \<Rightarrow> 'a list" where
  "set_insert lt x [] = [x]"
| "set_insert lt x (y # ys) =
     (if lt y x then y # set_insert lt x ys
      else if lt x y then x # y # ys
      else y # ys)"

definition equivalent :: "('a \<Rightarrow> 'a \<Rightarrow> bool) \<Rightarrow> 'a \<Rightarrow> 'a \<Rightarrow> bool" where
  "equivalent lt a b \<longleftrightarrow> \<not> lt a b \<and> \<not> lt b a"

definition strict_weak_order :: "('a \<Rightarrow> 'a \<Rightarrow> bool) \<Rightarrow> bool" where
  \<comment> \<open>what the library requires of a comparison\<close>
  "strict_weak_order lt \<longleftrightarrow>
     (\<forall>a. \<not> lt a a) \<and>
     (\<forall>a b c. lt a b \<longrightarrow> lt b c \<longrightarrow> lt a c) \<and>
     (\<forall>a b c. equivalent lt a b \<longrightarrow> equivalent lt b c \<longrightarrow> equivalent lt a c)"

definition tuple_less ::
  "('a \<Rightarrow> 'a \<Rightarrow> bool) \<Rightarrow> ('b \<Rightarrow> 'b \<Rightarrow> bool) \<Rightarrow> 'a \<times> 'b \<Rightarrow> 'a \<times> 'b \<Rightarrow> bool" where
  \<comment> \<open>\<open>operator<\<close> of \<open>std::tuple\<close>, as \<open>std::tie(...) < std::tie(...)\<close> uses it: the
      first components decide unless they are equivalent, then the remaining ones\<close>
  "tuple_less l1 l2 a b \<longleftrightarrow>
     l1 (fst a) (fst b) \<or> (\<not> l1 (fst b) (fst a) \<and> l2 (snd a) (snd b))"

text \<open>
  \<open>std::string\<close> compares bytewise and then by length, which is \<open>(<)\<close> on \<open>string\<close>.
  A C++ \<open>int\<close> is a 32-bit word compared as a signed number.
\<close>

type_synonym cxx_int = "32 word"

text \<open>
  Modelled from the spec: \<open>ordered_map\<close> is declared in \<open>lib/ordered_map.h\<close>, which is not
  among the sources. The model is the map the spec's data model describes (one value per
  key, "locate or create the record"): the entries in the order their keys were first
  inserted, \<open>map_of\<close> for lookup, and \<open>ordered_map_at k d f\<close> for \<open>f(m[k])\<close>, where
  \<open>operator[]\<close> creates a missing entry with the default value \<open>d\<close> at the end.
\<close>

type_synonym ('k, 'v) ordered_map = "('k \<times> 'v) list"

fun ordered_map_at ::
  "'k \<Rightarrow> 'v \<Rightarrow> ('v \<Rightarrow> 'v) \<Rightarrow> ('k, 'v) ordered_map \<Rightarrow> ('k, 'v) ordered_map" where
  "ordered_map_at k d f [] = [(k, f d)]"
| "ordered_map_at k d f ((k', v) # m) =
     (if k' = k then (k', f v) # m else (k', v) # ordered_map_at k d f m)"

section \<open>bf-p4c/logging/resources.h: the resource model\<close>

text \<open>
  \<open>IXBar::Use::Byte\<close> and its \<open>operator<\<close> are declared in
  \<open>bf-p4c/mau/input_xbar.h\<close>, which is not among the sources: the type is a parameter
  \<open>'b\<close> and its comparison a parameter \<open>byte_less\<close>.
\<close>

record 'b XbarByteResource =
  usedBy :: string
  usedFor :: string
  byte :: 'b

definition XbarByteResource_less ::
  "('b \<Rightarrow> 'b \<Rightarrow> bool) \<Rightarrow> 'b XbarByteResource \<Rightarrow> 'b XbarByteResource \<Rightarrow> bool" where
  \<comment> \<open>\<open>return std::tie(usedBy, usedFor, byte) <
             std::tie(other.usedBy, other.usedFor, other.byte);\<close>\<close>
  "XbarByteResource_less byte_less a b =
     tuple_less (<) (tuple_less (<) byte_less)
       (usedBy a, usedFor a, byte a) (usedBy b, usedFor b, byte b)"

datatype UsageType = WaySelect | WayLineSelect | SelectionBit | DistBit | Gateway

fun UsageType_int :: "UsageType \<Rightarrow> int" where
  \<comment> \<open>\<open>enum class UsageType { WaySelect = 0, WayLineSelect, SelectionBit, DistBit,
      Gateway }\<close>: the enumerators' values, which \<open><\<close> on the enumeration compares\<close>
  "UsageType_int WaySelect = 0"
| "UsageType_int WayLineSelect = 1"
| "UsageType_int SelectionBit = 2"
| "UsageType_int DistBit = 3"
| "UsageType_int Gateway = 4"

definition UsageType_less :: "UsageType \<Rightarrow> UsageType \<Rightarrow> bool" where
  "UsageType_less a b \<longleftrightarrow> UsageType_int a < UsageType_int b"

record Usage =
  "value" :: cxx_int
  fieldName :: string
  type :: UsageType

definition Usage_less :: "Usage \<Rightarrow> Usage \<Rightarrow> bool" where
  \<comment> \<open>\<open>return std::tie(type, value, fieldName) <
             std::tie(other.type, other.value, other.fieldName);\<close>\<close>
  "Usage_less a b =
     tuple_less UsageType_less (tuple_less word_sless (<))
       (type a, value a, fieldName a) (type b, value b, fieldName b)"

text \<open>
  \<open>struct HashBitResource { ...; std::string usedBy; std::string usedFor;
  std::set<Usage> usages; void append(...); }\<close>
\<close>

record HashBitResource =
  usedBy :: string
  usedFor :: string
  usages :: "Usage list"

text \<open>\<open>struct ActionBusByteResource { std::set<std::string> usedBy; ... }\<close>\<close>

record ActionBusByteResource =
  usedBy :: "string list"

text \<open>
  \<open>struct HashDistResource { std::set<std::string> usedBy; std::set<std::string> usedFor;
  void append(const std::string &ub, const std::string &uf); }\<close>
\<close>

record HashDistResource =
  usedBy :: "string list"
  usedFor :: "string list"

text \<open>
  The other structures of the header. \<open>gress_t\<close> (\<open>ir/gress.h\<close>),
  \<open>IR::MAU::Table\<close> (\<open>ir/ir.h\<close>) and \<open>TableResourceAlloc\<close> are not among the sources:
  the direction is a type parameter \<open>'g\<close>, and the two pointers of a
  \<open>MemoriesResource\<close> are values of the parameters \<open>'t\<close> and \<open>'u\<close>. A
  \<open>std::vector\<close> is the list of its elements.
\<close>

record ('t, 'u) MemoriesResource =
  table :: 't
  tableName :: string
  gatewayName :: string
  use :: 'u

record 'g IMemColorResource =
  color :: "32 word"
  gress :: 'g
  usages :: "(string, string list) ordered_map"

record ('b, 'g, 't, 'u) StageResources =
  logicalIds :: "(cxx_int, cstring) ordered_map"
  xbarBytes :: "(cxx_int, 'b XbarByteResource list) ordered_map"
  hashBits :: "(cxx_int \<times> cxx_int, HashBitResource) ordered_map"
  hashDist :: "(cxx_int \<times> cxx_int, HashDistResource) ordered_map"
  actionBusBytes :: "(cxx_int, ActionBusByteResource) ordered_map"
  imemColor :: "(cxx_int, 'g IMemColorResource list) ordered_map"
  memories :: "('t, 'u) MemoriesResource list"

section \<open>The collector, where its code is not among the sources\<close>

text \<open>
  Modelled from the spec: the body of \<open>HashDistResource::append\<close> is in
  \<open>resources.cpp\<close>, which is not among the sources. The spec: "union the consumer label
  into the corresponding usedBy set and the purpose label into the corresponding usedFor
  set".
\<close>

definition HashDistResource_append ::
  "string \<Rightarrow> string \<Rightarrow> HashDistResource \<Rightarrow> HashDistResource" where
  "HashDistResource_append ub uf r =
     r\<lparr>usedBy := set_insert (<) ub (usedBy r), usedFor := set_insert (<) uf (usedFor r)\<rparr>"

text \<open>
  Modelled from the spec: one step of \<open>collectHashDistUsage\<close>, whose body is in
  \<open>resources.cpp\<close>. The spec: "for every (hashId, unitId) consumed", the labels go to
  the record of that key in \<open>hashDist\<close>, which is located or created.
\<close>

definition hashDist_use ::
  "cxx_int \<times> cxx_int \<Rightarrow> string \<Rightarrow> string \<Rightarrow>
     (cxx_int \<times> cxx_int, HashDistResource) ordered_map \<Rightarrow>
     (cxx_int \<times> cxx_int, HashDistResource) ordered_map" where
  "hashDist_use key ub uf m =
     ordered_map_at key \<lparr>usedBy = [], usedFor = []\<rparr> (HashDistResource_append ub uf) m"

text \<open>
  Modelled from the spec: the logical id step of \<open>collectTableUsage\<close>, whose body is in
  \<open>resources.cpp\<close>, on \<open>ordered_map<int, cstring> logicalIds\<close>. The spec: "Insert
  (logicalId \<rightarrow> tableName) into that stage's index. Fails fatally if a different table
  already claims the same logical id in that stage", with "a diagnostic naming the
  offending table/stage". A table is known to the index by its name.
\<close>

datatype compiler_bug =
    DuplicateLogicalId nat cxx_int cstring cstring
  | NoSuchStage nat cstring

definition insertLogicalId ::
  "nat \<Rightarrow> cxx_int \<Rightarrow> cstring \<Rightarrow> (cxx_int, cstring) ordered_map \<Rightarrow>
     compiler_bug + (cxx_int, cstring) ordered_map" where
  "insertLogicalId stage lid name ids =
     (case map_of ids lid of
        None \<Rightarrow> Inr (ids @ [(lid, name)])
      | Some other \<Rightarrow>
          if other = name then Inr ids
          else Inl (DuplicateLogicalId stage lid other name))"

text \<open>
  Modelled from the spec: \<open>IR::MAU::Table\<close> is declared in \<open>ir/ir.h\<close>, which is not
  among the sources. A table is what section 4.1 of the spec reads of one: its name, the
  name of an attached gateway, "the set of physical stage indices the table's final
  placement occupies", its logical id in a stage, and its allocation result for a stage
  ("independently-scoped memory allocations"). \<open>node\<close> is the address of the IR node.
  Every table here carries its allocation result: the spec makes a table without one
  fatal before anything is collected for it.
\<close>

record ('t, 'u) Table =
  node :: 't
  externalName :: cstring
  gateway_name :: string
  stages :: "nat list"
  logical_id :: "nat \<Rightarrow> cxx_int"
  resources :: "nat \<Rightarrow> 'u"

text \<open>
  Modelled from the spec: \<open>preorder(const IR::BFN::Pipe *)\<close>, whose body is in
  \<open>resources.cpp\<close>. The spec: "On entry it resets/initializes an empty PipelineReport",
  here for a pipeline of \<open>n\<close> stages.
\<close>

definition StageResources_empty :: "('b, 'g, 't, 'u) StageResources" where
  "StageResources_empty =
     \<lparr>logicalIds = [], xbarBytes = [], hashBits = [], hashDist = [], actionBusBytes = [],
      imemColor = [], memories = []\<rparr>"

definition preorder_Pipe :: "nat \<Rightarrow> ('b, 'g, 't, 'u) StageResources list" where
  "preorder_Pipe n = replicate n StageResources_empty"

text \<open>
  Modelled from the spec: \<open>collectTableUsage\<close>, whose body is in \<open>resources.cpp\<close>, for
  one table in one of its stages: step 2 of section 4.1 (the logical id) and step 8
  ("Build one TableMemoriesUsage ... tagged with tableName and, if present, an attached
  gateway's name. Append it to the relevant stage(s)"). Steps 3 to 7 fill the other five
  members of the stage from allocation results whose types are not among the sources; they
  are left out, so the model says nothing about those members. Indexing
  \<open>stageResources\<close> past its end is undefined in C++ and a failure here.
\<close>

definition memoriesResource :: "nat \<Rightarrow> ('t, 'u) Table \<Rightarrow> ('t, 'u) MemoriesResource" where
  \<comment> \<open>the \<open>MemoriesResource(table, name, gwname, use)\<close> built for a table in a stage\<close>
  "memoriesResource stage tbl =
     \<lparr>table = node tbl, tableName = cstring_string (externalName tbl),
      gatewayName = gateway_name tbl, use = resources tbl stage\<rparr>"

definition collectTableUsage ::
  "nat \<Rightarrow> ('t, 'u) Table \<Rightarrow> ('b, 'g, 't, 'u) StageResources list \<Rightarrow>
     compiler_bug + ('b, 'g, 't, 'u) StageResources list" where
  "collectTableUsage stage tbl stageResources =
     (if length stageResources \<le> stage then Inl (NoSuchStage stage (externalName tbl))
      else
        case insertLogicalId stage (logical_id tbl stage) (externalName tbl)
               (logicalIds (stageResources ! stage)) of
          Inl bug \<Rightarrow> Inl bug
        | Inr ids \<Rightarrow>
            Inr (stageResources[stage := (stageResources ! stage)
                  \<lparr>logicalIds := ids,
                   memories := memories (stageResources ! stage) @
                     [memoriesResource stage tbl]\<rparr>]))"

text \<open>
  Modelled from the spec: \<open>preorder(const IR::MAU::Table *)\<close> and the traversal that
  calls it, whose code is not among the sources. The spec: "The table is processed once per
  occupied stage", for every table of the pipeline, and a fatal condition "aborts the whole
  compilation immediately".
\<close>

fun collectStages ::
  "nat list \<Rightarrow> ('t, 'u) Table \<Rightarrow> ('b, 'g, 't, 'u) StageResources list \<Rightarrow>
     compiler_bug + ('b, 'g, 't, 'u) StageResources list" where
  "collectStages [] tbl stageResources = Inr stageResources"
| "collectStages (stage # rest) tbl stageResources =
     (case collectTableUsage stage tbl stageResources of
        Inl bug \<Rightarrow> Inl bug
      | Inr stageResources' \<Rightarrow> collectStages rest tbl stageResources')"

definition preorder_Table ::
  "('t, 'u) Table \<Rightarrow> ('b, 'g, 't, 'u) StageResources list \<Rightarrow>
     compiler_bug + ('b, 'g, 't, 'u) StageResources list" where
  "preorder_Table tbl stageResources = collectStages (remdups (stages tbl)) tbl stageResources"

fun collect ::
  "('t, 'u) Table list \<Rightarrow> ('b, 'g, 't, 'u) StageResources list \<Rightarrow>
     compiler_bug + ('b, 'g, 't, 'u) StageResources list" where
  "collect [] stageResources = Inr stageResources"
| "collect (tbl # tbls) stageResources =
     (case preorder_Table tbl stageResources of
        Inl bug \<Rightarrow> Inl bug
      | Inr stageResources' \<Rightarrow> collect tbls stageResources')"

text \<open>The invariant of the traversal: no stage's index holds a logical id twice.\<close>

definition index_ok :: "('b, 'g, 't, 'u) StageResources list \<Rightarrow> bool" where
  "index_ok srs \<longleftrightarrow> (\<forall>sr\<in>set srs. distinct (map fst (logicalIds sr)))"

text \<open>The claims the tables of a traversal make on the index of a stage.\<close>

definition claims_of :: "('t, 'u) Table list \<Rightarrow> nat \<Rightarrow> (cxx_int \<times> cstring) set" where
  "claims_of tbls s =
     {(logical_id tbl s, externalName tbl) | tbl. tbl \<in> set tbls \<and> s \<in> set (stages tbl)}"

section \<open>bf-p4c/logging/resources.h: the constructor of the logging pass\<close>

datatype cxx_exception = out_of_range

definition substr :: "string \<Rightarrow> nat \<Rightarrow> cxx_exception + string" where
  \<comment> \<open>\<open>std::string::substr(pos)\<close>: the characters from \<open>pos\<close> on; throws
      \<open>std::out_of_range\<close> when \<open>pos > size()\<close>\<close>
  "substr s pos = (if length s < pos then Inl out_of_range else Inr (drop pos s))"

text \<open>
  The members the constructor sets; \<open>stageResources\<close>, \<open>parserResources\<close> and
  \<open>clotResources\<close> start empty. \<open>ClotInfo\<close> is only forward-declared in the header, so
  it is a type parameter. A string's size is below \<open>max_size()\<close>, so
  \<open>outdir.size() + 1\<close> does not wrap in \<open>size_t\<close>.
\<close>

record 'c ResourcesLogging =
  clotInfo :: 'c
  filePath :: string
  manifestPath :: string

definition ResourcesLogging_ctor ::
  "'c \<Rightarrow> string \<Rightarrow> string \<Rightarrow> cxx_exception + 'c ResourcesLogging" where
  \<comment> \<open>\<open>: clotInfo(clotInfo), filePath(filename)
        { manifestPath = filename.substr(outdir.size() + 1); }\<close>\<close>
  "ResourcesLogging_ctor ci filename outdir =
     (case substr filename (length outdir + 1) of
        Inl e \<Rightarrow> Inl e
      | Inr p \<Rightarrow> Inr \<lparr>clotInfo = ci, filePath = filename, manifestPath = p\<rparr>)"

section \<open>bf-p4c/parde/marshal.cpp\<close>

text \<open>
  \<open>MarshaledFrom\<close> is declared in \<open>marshal.h\<close>, which is not among the sources; the
  three members the two functions name are its fields, their types parameters.
  \<open>JSONGenerator::emit\<close> and \<open>JSONLoader::load\<close> (\<open>ir/json_generator.h\<close>,
  \<open>ir/json_loader.h\<close>) are not among the sources either: they are parameters, one pair for
  each member type, and \<open>'j\<close> is the document the generator writes and the loader reads.
  \<open>load key json v\<close> is the value of the reference \<open>v\<close> after \<open>json.load(key, v)\<close>.
\<close>

record ('g, 'f, 'p) MarshaledFrom =
  gress :: 'g
  field_name :: 'f
  pre_padding :: 'p

definition toJSON ::
  "(string \<Rightarrow> 'g \<Rightarrow> 'j \<Rightarrow> 'j) \<Rightarrow> (string \<Rightarrow> 'f \<Rightarrow> 'j \<Rightarrow> 'j) \<Rightarrow> (string \<Rightarrow> 'p \<Rightarrow> 'j \<Rightarrow> 'j) \<Rightarrow>
     ('g, 'f, 'p) MarshaledFrom \<Rightarrow> 'j \<Rightarrow> 'j" where
  \<comment> \<open>\<open>json.emit("gress", gress); json.emit("field_name", field_name);
      json.emit("pre_padding", pre_padding);\<close>\<close>
  "toJSON emit_g emit_f emit_p m json =
     (let json = emit_g ''gress'' (gress m) json;
          json = emit_f ''field_name'' (field_name m) json;
          json = emit_p ''pre_padding'' (pre_padding m) json
      in json)"

definition fromJSON ::
  "(string \<Rightarrow> 'j \<Rightarrow> 'g \<Rightarrow> 'g) \<Rightarrow> (string \<Rightarrow> 'j \<Rightarrow> 'f \<Rightarrow> 'f) \<Rightarrow> (string \<Rightarrow> 'j \<Rightarrow> 'p \<Rightarrow> 'p) \<Rightarrow>
     ('g, 'f, 'p) MarshaledFrom \<Rightarrow> 'j \<Rightarrow> ('g, 'f, 'p) MarshaledFrom" where
  \<comment> \<open>\<open>MarshaledFrom rv; json.load("gress", rv.gress);
      json.load("field_name", rv.field_name); json.load("pre_padding", rv.pre_padding);
      return rv;\<close> where \<open>rv0\<close> is the default-constructed value\<close>
  "fromJSON load_g load_f load_p rv0 json =
     (let rv = rv0;
          rv = rv\<lparr>gress := load_g ''gress'' json (gress rv)\<rparr>;
          rv = rv\<lparr>field_name := load_f ''field_name'' json (field_name rv)\<rparr>;
          rv = rv\<lparr>pre_padding := load_p ''pre_padding'' json (pre_padding rv)\<rparr>
      in rv)"

text \<open>
  What is assumed of a generator and a loader: a member is loaded as the value that was
  emitted under its key, and emitting under another key does not change what a key loads.
\<close>

definition reads_back ::
  "(string \<Rightarrow> 'v \<Rightarrow> 'j \<Rightarrow> 'j) \<Rightarrow> (string \<Rightarrow> 'j \<Rightarrow> 'v \<Rightarrow> 'v) \<Rightarrow> bool" where
  "reads_back emit load \<longleftrightarrow> (\<forall>key v json old. load key (emit key v json) old = v)"

definition passes_over ::
  "(string \<Rightarrow> 'w \<Rightarrow> 'j \<Rightarrow> 'j) \<Rightarrow> (string \<Rightarrow> 'j \<Rightarrow> 'v \<Rightarrow> 'v) \<Rightarrow> bool" where
  "passes_over emit load \<longleftrightarrow>
     (\<forall>key key' w json old. key \<noteq> key' \<longrightarrow> load key (emit key' w json) old = load key json old)"

section \<open>Properties of cstring\<close>

lemma strlen_le_length: "strlen mem \<le> length mem"
  by (simp add: strlen_def length_takeWhile_le)

text \<open>
  C10. \<open>get\<close> is total: for every cstring, the null one included, and every unsigned
  index, the read succeeds (it never leaves the allocated bytes), and it gives the
  character at that index of the underlying string when the index is below \<open>size()\<close>,
  and the character 0 otherwise.
\<close>

theorem cstring_get_total:
  "cstring_get s i =
     Some (if unat i < cstring_size s then cstring_string s ! unat i else NUL)"
proof (cases s)
  case None
  then show ?thesis
    by (simp add: cstring_get_def cstring_size_def)
next
  case (Some bs)
  show ?thesis
  proof (cases "unat i < strlen (c_mem bs)")
    case True
    with strlen_le_length [of "c_mem bs"] have "unat i < length (c_mem bs)"
      by simp
    with True Some show ?thesis
      by (simp add: cstring_get_def cstring_size_def cstring_string_def deref_def)
  next
    case False
    with Some show ?thesis
      by (simp add: cstring_get_def cstring_size_def)
  qed
qed

section \<open>Properties of the constructor\<close>

text \<open>
  C8. When \<open>filename\<close> is \<open>outdir\<close>, one separator character and a rest, the constructor
  succeeds and the manifest path is \<open>filename\<close> without its first
  \<open>outdir.size() + 1\<close> characters, which is that rest: the path of the artifact
  relative to the output directory.
\<close>

theorem manifestPath_relative:
  assumes "filename = outdir @ sep # rest"
  shows "ResourcesLogging_ctor ci filename outdir =
           Inr \<lparr>clotInfo = ci, filePath = filename,
                manifestPath = drop (length outdir + 1) filename\<rparr>
         \<and> drop (length outdir + 1) filename = rest"
  using assms by (simp add: ResourcesLogging_ctor_def substr_def)

theorem manifestPath_relative_witness:
  "ResourcesLogging_ctor () ''build/pipe/logs/resources.json'' ''build'' =
     Inr \<lparr>clotInfo = (), filePath = ''build/pipe/logs/resources.json'',
          manifestPath = ''pipe/logs/resources.json''\<rparr>"
  using manifestPath_relative [of "''build/pipe/logs/resources.json''" "''build''"
      "CHR ''/''" "''pipe/logs/resources.json''" "()"]
  by simp

section \<open>Properties of the set container and of the comparisons\<close>

lemma set_insert_twice:
  "\<not> lt x x \<Longrightarrow> set_insert lt x (set_insert lt x s) = set_insert lt x s"
  by (induction s) simp_all

lemma swo_irrefl: "strict_weak_order lt \<Longrightarrow> \<not> lt a a"
  by (simp add: strict_weak_order_def)

lemma swo_trans: "strict_weak_order lt \<Longrightarrow> lt a b \<Longrightarrow> lt b c \<Longrightarrow> lt a c"
  unfolding strict_weak_order_def by blast

lemma swo_equiv_trans:
  "strict_weak_order lt \<Longrightarrow> equivalent lt a b \<Longrightarrow> equivalent lt b c \<Longrightarrow> equivalent lt a c"
  unfolding strict_weak_order_def by blast

lemma equivalent_sym: "equivalent lt a b \<Longrightarrow> equivalent lt b a"
  by (simp add: equivalent_def)

lemma swo_less_equiv:
  assumes "strict_weak_order lt" "lt a b" "equivalent lt b c"
  shows "lt a c"
proof (rule ccontr)
  assume n: "\<not> lt a c"
  have "\<not> lt c a"
  proof
    assume "lt c a"
    then have "lt c b" using assms(2) by (rule swo_trans [OF assms(1)])
    with assms(3) show False by (simp add: equivalent_def)
  qed
  with n have "equivalent lt a c" by (simp add: equivalent_def)
  then have "equivalent lt a b"
    using equivalent_sym [OF assms(3)] by (rule swo_equiv_trans [OF assms(1)])
  with assms(2) show False by (simp add: equivalent_def)
qed

lemma swo_equiv_less:
  assumes "strict_weak_order lt" "equivalent lt a b" "lt b c"
  shows "lt a c"
proof (rule ccontr)
  assume n: "\<not> lt a c"
  have "\<not> lt c a"
  proof
    assume "lt c a"
    with assms(3) have "lt b a" by (rule swo_trans [OF assms(1)])
    with assms(2) show False by (simp add: equivalent_def)
  qed
  with n have "equivalent lt a c" by (simp add: equivalent_def)
  with equivalent_sym [OF assms(2)] have "equivalent lt b c"
    by (rule swo_equiv_trans [OF assms(1)])
  with assms(3) show False by (simp add: equivalent_def)
qed

lemma set_set_insert_subset: "set (set_insert lt x s) \<subseteq> insert x (set s)"
  by (induction s) auto

lemma sorted_set_insert:
  assumes "strict_weak_order lt"
  shows "sorted_wrt lt s \<Longrightarrow> sorted_wrt lt (set_insert lt x s)"
proof (induction s)
  case Nil
  then show ?case by simp
next
  case (Cons y ys)
  show ?case
  proof (cases "lt y x")
    case True
    have "\<forall>z\<in>set (set_insert lt x ys). lt y z"
      using set_set_insert_subset [of lt x ys] True Cons.prems by auto
    with True Cons show ?thesis by simp
  next
    case False
    show ?thesis
    proof (cases "lt x y")
      case True
      have "\<forall>z\<in>set ys. lt x z"
      proof
        fix z assume "z \<in> set ys"
        with Cons.prems have "lt y z" by simp
        with True show "lt x z" by (rule swo_trans [OF assms])
      qed
      with True False Cons.prems show ?thesis by simp
    next
      case False
      with \<open>\<not> lt y x\<close> Cons.prems show ?thesis by simp
    qed
  qed
qed

lemma filter_equivalent_above:
  "\<forall>z\<in>set ys. lt x z \<Longrightarrow> filter (equivalent lt x) ys = []"
  by (induction ys) (simp_all add: equivalent_def)

lemma one_equivalent_set_insert:
  assumes "strict_weak_order lt"
  shows "sorted_wrt lt s \<Longrightarrow> length (filter (equivalent lt x) (set_insert lt x s)) = 1"
proof (induction s)
  case Nil
  then show ?case using assms by (simp add: equivalent_def swo_irrefl)
next
  case (Cons y ys)
  show ?case
  proof (cases "lt y x")
    case True
    with Cons show ?thesis by (simp add: equivalent_def)
  next
    case ny: False
    show ?thesis
    proof (cases "lt x y")
      case True
      have "\<forall>z\<in>set ys. lt x z"
      proof
        fix z assume "z \<in> set ys"
        with Cons.prems have "lt y z" by simp
        with True show "lt x z" by (rule swo_trans [OF assms])
      qed
      then have "filter (equivalent lt x) ys = []"
        by (rule filter_equivalent_above)
      moreover have "equivalent lt x x"
        using assms by (simp add: equivalent_def swo_irrefl)
      moreover have "\<not> equivalent lt x y"
        using True by (simp add: equivalent_def)
      ultimately show ?thesis using True ny by simp
    next
      case False
      with ny have e: "equivalent lt x y" by (simp add: equivalent_def)
      have "\<forall>z\<in>set ys. lt x z"
      proof
        fix z assume "z \<in> set ys"
        with Cons.prems have "lt y z" by simp
        with e show "lt x z" by (rule swo_equiv_less [OF assms])
      qed
      then have "filter (equivalent lt x) ys = []"
        by (rule filter_equivalent_above)
      with e False ny show ?thesis by simp
    qed
  qed
qed

lemma swo_total:
  assumes "\<And>a. \<not> lt a a" "\<And>a b c. lt a b \<Longrightarrow> lt b c \<Longrightarrow> lt a c"
    and "\<And>a b. a \<noteq> b \<Longrightarrow> lt a b \<or> lt b a"
  shows "strict_weak_order lt"
proof -
  have eq: "equivalent lt a b \<longleftrightarrow> a = b" for a b
    using assms(1,3) unfolding equivalent_def by blast
  show ?thesis
    unfolding strict_weak_order_def eq using assms(1,2) by blast
qed

lemma swo_linorder: "strict_weak_order ((<) :: 'a::linorder \<Rightarrow> 'a \<Rightarrow> bool)"
  by (rule swo_total) auto

lemma equivalent_linorder: "equivalent (<) a b \<longleftrightarrow> a = (b :: 'a::linorder)"
  by (auto simp: equivalent_def)

lemma swo_word_sless: "strict_weak_order (word_sless :: 'a::len word \<Rightarrow> _)"
proof (rule swo_total)
  fix a b c :: "'a word"
  show "\<not> word_sless a a" by simp
  show "word_sless a b \<Longrightarrow> word_sless b c \<Longrightarrow> word_sless a c" by (rule signed.less_trans)
  show "a \<noteq> b \<Longrightarrow> word_sless a b \<or> word_sless b a" by (simp add: signed.neq_iff)
qed

lemma equivalent_word_sless: "equivalent word_sless a b \<longleftrightarrow> a = (b :: 'a::len word)"
  using signed.neq_iff [of a b] by (auto simp: equivalent_def)

lemma UsageType_int_inject: "UsageType_int a = UsageType_int b \<Longrightarrow> a = b"
  by (cases a; cases b) simp_all

lemma swo_UsageType_less: "strict_weak_order UsageType_less"
proof (rule swo_total)
  fix a b c :: UsageType
  show "\<not> UsageType_less a a" by (simp add: UsageType_less_def)
  show "UsageType_less a b \<Longrightarrow> UsageType_less b c \<Longrightarrow> UsageType_less a c"
    by (simp add: UsageType_less_def)
  show "a \<noteq> b \<Longrightarrow> UsageType_less a b \<or> UsageType_less b a"
    using UsageType_int_inject [of a b] unfolding UsageType_less_def by linarith
qed

lemma equivalent_UsageType_less: "equivalent UsageType_less a b \<longleftrightarrow> a = b"
  using UsageType_int_inject [of a b] unfolding equivalent_def UsageType_less_def
  by (cases "a = b") (simp, linarith)

lemma equivalent_tuple_less:
  assumes "strict_weak_order l1"
  shows "equivalent (tuple_less l1 l2) a b \<longleftrightarrow>
         equivalent l1 (fst a) (fst b) \<and> equivalent l2 (snd a) (snd b)"
  using swo_irrefl [OF assms]
  unfolding equivalent_def tuple_less_def by blast

lemma swo_tuple_less:
  assumes "strict_weak_order l1" "strict_weak_order l2"
  shows "strict_weak_order (tuple_less l1 l2)"
  unfolding strict_weak_order_def
proof (intro conjI allI impI)
  fix a show "\<not> tuple_less l1 l2 a a"
    using assms by (simp add: tuple_less_def swo_irrefl)
next
  fix a b c
  assume "equivalent (tuple_less l1 l2) a b" "equivalent (tuple_less l1 l2) b c"
  then have "equivalent l1 (fst a) (fst b)" "equivalent l1 (fst b) (fst c)"
    "equivalent l2 (snd a) (snd b)" "equivalent l2 (snd b) (snd c)"
    by (simp_all add: equivalent_tuple_less [OF assms(1)])
  then have "equivalent l1 (fst a) (fst c)" "equivalent l2 (snd a) (snd c)"
    using swo_equiv_trans [OF assms(1)] swo_equiv_trans [OF assms(2)] by blast+
  then show "equivalent (tuple_less l1 l2) a c"
    by (simp add: equivalent_tuple_less [OF assms(1)])
next
  fix a b c assume ab: "tuple_less l1 l2 a b" and bc: "tuple_less l1 l2 b c"
  show "tuple_less l1 l2 a c"
  proof (cases "l1 (fst a) (fst b)")
    case True
    show ?thesis
    proof (cases "l1 (fst b) (fst c)")
      case bc1: True
      from True bc1 have "l1 (fst a) (fst c)" by (rule swo_trans [OF assms(1)])
      then show ?thesis by (simp add: tuple_less_def)
    next
      case False
      with bc have "equivalent l1 (fst b) (fst c)"
        by (auto simp: tuple_less_def equivalent_def)
      with True have "l1 (fst a) (fst c)" by (rule swo_less_equiv [OF assms(1)])
      then show ?thesis by (simp add: tuple_less_def)
    qed
  next
    case False
    with ab have e: "equivalent l1 (fst a) (fst b)" and s: "l2 (snd a) (snd b)"
      by (auto simp: tuple_less_def equivalent_def)
    show ?thesis
    proof (cases "l1 (fst b) (fst c)")
      case True
      with e have "l1 (fst a) (fst c)" by (rule swo_equiv_less [OF assms(1)])
      then show ?thesis by (simp add: tuple_less_def)
    next
      case False
      with bc have e': "equivalent l1 (fst b) (fst c)" and s': "l2 (snd b) (snd c)"
        by (auto simp: tuple_less_def equivalent_def)
      from e e' have "equivalent l1 (fst a) (fst c)" by (rule swo_equiv_trans [OF assms(1)])
      moreover from s s' have "l2 (snd a) (snd c)" by (rule swo_trans [OF assms(2)])
      ultimately show ?thesis by (simp add: tuple_less_def equivalent_def)
    qed
  qed
qed

lemma swo_on_fields:
  assumes "strict_weak_order lt"
  shows "strict_weak_order (\<lambda>a b. lt (f a) (f b))"
  unfolding strict_weak_order_def
proof (intro conjI allI impI)
  fix a show "\<not> lt (f a) (f a)" by (rule swo_irrefl [OF assms])
next
  fix a b c assume "lt (f a) (f b)" "lt (f b) (f c)"
  then show "lt (f a) (f c)" by (rule swo_trans [OF assms])
next
  fix a b c
  assume "equivalent (\<lambda>a b. lt (f a) (f b)) a b" "equivalent (\<lambda>a b. lt (f a) (f b)) b c"
  then have "equivalent lt (f a) (f b)" "equivalent lt (f b) (f c)"
    by (simp_all add: equivalent_def)
  then have "equivalent lt (f a) (f c)" by (rule swo_equiv_trans [OF assms])
  then show "equivalent (\<lambda>a b. lt (f a) (f b)) a c" by (simp add: equivalent_def)
qed

lemma swo_XbarByteResource_less:
  assumes "strict_weak_order byte_less"
  shows "strict_weak_order (XbarByteResource_less byte_less)"
proof -
  let ?key = "\<lambda>a :: 'a XbarByteResource.
                (XbarByteResource.usedBy a, XbarByteResource.usedFor a, byte a)"
  have "strict_weak_order
          (tuple_less ((<) :: string \<Rightarrow> _) (tuple_less ((<) :: string \<Rightarrow> _) byte_less))"
    by (intro swo_tuple_less swo_linorder assms)
  then have "strict_weak_order
          (\<lambda>a b. tuple_less (<) (tuple_less (<) byte_less) (?key a) (?key b))"
    by (rule swo_on_fields)
  moreover have "XbarByteResource_less byte_less =
          (\<lambda>a b. tuple_less (<) (tuple_less (<) byte_less) (?key a) (?key b))"
    by (intro ext) (simp add: XbarByteResource_less_def)
  ultimately show ?thesis by simp
qed

lemma swo_Usage_less: "strict_weak_order Usage_less"
proof -
  have "strict_weak_order
          (tuple_less UsageType_less (tuple_less (word_sless :: cxx_int \<Rightarrow> _) ((<) :: string \<Rightarrow> _)))"
    by (intro swo_tuple_less swo_linorder swo_word_sless swo_UsageType_less)
  then have "strict_weak_order (\<lambda>(a :: Usage) (b :: Usage).
       tuple_less UsageType_less (tuple_less word_sless (<))
       (type a, value a, fieldName a) (type b, value b, fieldName b))"
    by (rule swo_on_fields)
  moreover have "Usage_less =
       (\<lambda>a b. tuple_less UsageType_less (tuple_less word_sless (<))
          (type a, value a, fieldName a) (type b, value b, fieldName b))"
    by (intro ext) (simp add: Usage_less_def)
  ultimately show ?thesis by simp
qed

lemma equivalent_Usage_less: "equivalent Usage_less a b \<longleftrightarrow> a = (b :: Usage)"
proof -
  have "equivalent Usage_less a b \<longleftrightarrow>
        equivalent (tuple_less UsageType_less (tuple_less word_sless (<)))
          (type a, value a, fieldName a) (type b, value b, fieldName b)"
    by (simp add: equivalent_def Usage_less_def)
  also have "\<dots> \<longleftrightarrow> type a = type b \<and> value a = value b \<and> fieldName a = fieldName b"
    by (simp add: equivalent_tuple_less [OF swo_UsageType_less]
        equivalent_tuple_less [OF swo_word_sless]
        equivalent_UsageType_less equivalent_word_sless equivalent_linorder)
  also have "\<dots> \<longleftrightarrow> a = b"
    by (cases a; cases b) auto
  finally show ?thesis .
qed

lemma sorted_wrt_distinct:
  assumes "\<And>a. \<not> lt a a"
  shows "sorted_wrt lt s \<Longrightarrow> distinct s"
  using assms by (induction s) auto

lemma set_set_insert:
  assumes "\<And>y. equivalent lt x y \<Longrightarrow> x = y"
  shows "set (set_insert lt x s) = insert x (set s)"
proof (induction s)
  case Nil
  then show ?case by simp
next
  case (Cons y ys)
  show ?case
  proof (cases "lt y x \<or> lt x y")
    case True
    with Cons show ?thesis by auto
  next
    case False
    then have "equivalent lt x y" by (simp add: equivalent_def)
    then have "x = y" by (rule assms)
    with False show ?thesis by auto
  qed
qed

section \<open>Properties of the crossbar usage set\<close>

text \<open>
  C2. Crossbar usage of a stage is kept in \<open>std::set<XbarByteResource>\<close> values (the
  mapped values of \<open>xbarBytes\<close>). For every record \<open>r\<close>, that is every (consumer,
  purpose, byte) triple, and every such set \<open>s\<close>, inserting \<open>r\<close> a second time returns
  the set the first insertion gave (a no-op, and no error), and after both insertions the
  set holds exactly one record equivalent to \<open>r\<close> under \<open>operator<\<close>. The comparison
  of bytes is a parameter, assumed to be the strict weak order \<open>std::set\<close> requires.
\<close>

theorem xbarBytes_insert_idempotent:
  assumes "strict_weak_order byte_less"
    and "sorted_wrt (XbarByteResource_less byte_less) s"
  shows "set_insert (XbarByteResource_less byte_less) r
           (set_insert (XbarByteResource_less byte_less) r s) =
         set_insert (XbarByteResource_less byte_less) r s
       \<and> length (filter (equivalent (XbarByteResource_less byte_less) r)
           (set_insert (XbarByteResource_less byte_less) r
             (set_insert (XbarByteResource_less byte_less) r s))) = 1"
proof -
  let ?lt = "XbarByteResource_less byte_less"
  have swo: "strict_weak_order ?lt"
    using assms(1) by (rule swo_XbarByteResource_less)
  then have twice: "set_insert ?lt r (set_insert ?lt r s) = set_insert ?lt r s"
    by (intro set_insert_twice swo_irrefl)
  have "length (filter (equivalent ?lt r) (set_insert ?lt r s)) = 1"
    using swo assms(2) by (rule one_equivalent_set_insert)
  with twice show ?thesis by simp
qed

theorem xbarBytes_insert_idempotent_witness:
  "set_insert (XbarByteResource_less (tuple_less (<) (<)))
     \<lparr>XbarByteResource.usedBy = ''T1'', XbarByteResource.usedFor = ''exact-match-key'',
      byte = (2 :: nat, 1 :: nat)\<rparr>
     (set_insert (XbarByteResource_less (tuple_less (<) (<)))
        \<lparr>XbarByteResource.usedBy = ''T1'', XbarByteResource.usedFor = ''exact-match-key'',
         byte = (2, 1)\<rparr>
        [\<lparr>XbarByteResource.usedBy = ''T0'', XbarByteResource.usedFor = ''gateway'',
          byte = (2, 1)\<rparr>]) =
   [\<lparr>XbarByteResource.usedBy = ''T0'', XbarByteResource.usedFor = ''gateway'',
     byte = (2, 1)\<rparr>,
    \<lparr>XbarByteResource.usedBy = ''T1'', XbarByteResource.usedFor = ''exact-match-key'',
     byte = (2, 1)\<rparr>]"
proof -
  let ?T0 = "\<lparr>XbarByteResource.usedBy = ''T0'', XbarByteResource.usedFor = ''gateway'',
              byte = (2 :: nat, 1 :: nat)\<rparr>"
  let ?T1 = "\<lparr>XbarByteResource.usedBy = ''T1'', XbarByteResource.usedFor = ''exact-match-key'',
              byte = (2 :: nat, 1 :: nat)\<rparr>"
  have swo: "strict_weak_order (tuple_less ((<) :: nat \<Rightarrow> _) ((<) :: nat \<Rightarrow> _))"
    by (intro swo_tuple_less swo_linorder)
  have srt: "sorted_wrt (XbarByteResource_less (tuple_less (<) (<))) [?T0]"
    by simp
  show ?thesis
    using xbarBytes_insert_idempotent [OF swo srt, of ?T1]
    by (simp add: XbarByteResource_less_def tuple_less_def)
qed

section \<open>Properties of the hash bit usages\<close>

text \<open>
  C3. The \<open>usages\<close> of a \<open>HashBitResource\<close> are a \<open>std::set<Usage>\<close>. Recording
  WaySelect with value 0 and field k1, and SelectionBit with value 1 and field k2, in
  either order, gives exactly those two entries, the WaySelect one first. In general
  \<open>operator<\<close> is the lexicographic order on (type, value, fieldName), an inserted usage
  becomes a member without displacing any other (only an identical usage collapses), and
  the members stay distinct and in ascending order.
\<close>

theorem hashBit_usage_accumulation:
  assumes "sorted_wrt Usage_less s"
  shows "set_insert Usage_less \<lparr>value = 1, fieldName = ''k2'', type = SelectionBit\<rparr>
           (set_insert Usage_less \<lparr>value = 0, fieldName = ''k1'', type = WaySelect\<rparr> []) =
         [\<lparr>value = 0, fieldName = ''k1'', type = WaySelect\<rparr>,
          \<lparr>value = 1, fieldName = ''k2'', type = SelectionBit\<rparr>]
       \<and> set_insert Usage_less \<lparr>value = 0, fieldName = ''k1'', type = WaySelect\<rparr>
           (set_insert Usage_less \<lparr>value = 1, fieldName = ''k2'', type = SelectionBit\<rparr> []) =
         [\<lparr>value = 0, fieldName = ''k1'', type = WaySelect\<rparr>,
          \<lparr>value = 1, fieldName = ''k2'', type = SelectionBit\<rparr>]
       \<and> (Usage_less a b \<longleftrightarrow>
            UsageType_int (type a) < UsageType_int (type b)
          \<or> type a = type b \<and> (sint (value a) < sint (value b)
              \<or> value a = value b \<and> fieldName a < fieldName b))
       \<and> set (set_insert Usage_less u s) = insert u (set s)
       \<and> distinct (set_insert Usage_less u s)
       \<and> sorted_wrt Usage_less (set_insert Usage_less u s)"
proof -
  have srt: "sorted_wrt Usage_less (set_insert Usage_less u s)"
    using swo_Usage_less assms by (rule sorted_set_insert)
  have "distinct (set_insert Usage_less u s)"
    using srt by (rule sorted_wrt_distinct [rotated]) (rule swo_irrefl [OF swo_Usage_less])
  moreover have "set (set_insert Usage_less u s) = insert u (set s)"
    by (rule set_set_insert) (simp add: equivalent_Usage_less)
  moreover have "Usage_less a b \<longleftrightarrow>
            UsageType_int (type a) < UsageType_int (type b)
          \<or> type a = type b \<and> (sint (value a) < sint (value b)
              \<or> value a = value b \<and> fieldName a < fieldName b)"
    using UsageType_int_inject [of "type a" "type b"] signed.neq_iff [of "value a" "value b"]
    by (auto simp: Usage_less_def tuple_less_def UsageType_less_def word_sless_alt)
  ultimately show ?thesis
    using srt by (simp add: Usage_less_def tuple_less_def UsageType_less_def)
qed

theorem hashBit_usage_accumulation_witness:
  "sorted_wrt Usage_less [\<lparr>value = 0, fieldName = ''k1'', type = WaySelect\<rparr>]
   \<and> set (set_insert Usage_less \<lparr>value = 1, fieldName = ''k2'', type = SelectionBit\<rparr>
          [\<lparr>value = 0, fieldName = ''k1'', type = WaySelect\<rparr>]) =
       {\<lparr>value = 1, fieldName = ''k2'', type = SelectionBit\<rparr>,
        \<lparr>value = 0, fieldName = ''k1'', type = WaySelect\<rparr>}
   \<and> distinct (set_insert Usage_less \<lparr>value = 1, fieldName = ''k2'', type = SelectionBit\<rparr>
          [\<lparr>value = 0, fieldName = ''k1'', type = WaySelect\<rparr>])"
proof -
  have srt: "sorted_wrt Usage_less [\<lparr>value = 0, fieldName = ''k1'', type = WaySelect\<rparr>]"
    by simp
  show ?thesis
    using srt hashBit_usage_accumulation [OF srt,
        where u = "\<lparr>value = 1, fieldName = ''k2'', type = SelectionBit\<rparr>"
          and a = "\<lparr>value = 0, fieldName = ''k1'', type = WaySelect\<rparr>"
          and b = "\<lparr>value = 1, fieldName = ''k2'', type = SelectionBit\<rparr>"]
    by (simp add: Usage_less_def tuple_less_def UsageType_less_def)
qed

section \<open>Properties of the hash distribution usage\<close>

lemma map_of_ordered_map_at:
  "map_of (ordered_map_at k d f m) k = Some (f (case map_of m k of None \<Rightarrow> d | Some v \<Rightarrow> v))"
  by (induction m) auto

lemma set_set_insert_linorder:
  "set (set_insert (<) x s) = insert (x :: 'a::linorder) (set s)"
  by (rule set_set_insert) (simp add: equivalent_linorder)

lemma sorted_set_insert_linorder:
  "sorted_wrt (<) s \<Longrightarrow> sorted_wrt (<) (set_insert (<) (x :: 'a::linorder) s)"
  using swo_linorder by (rule sorted_set_insert)

lemma set_insert_commute:
  assumes "sorted_wrt (<) (s :: 'a::linorder list)"
  shows "set_insert (<) x (set_insert (<) y s) = set_insert (<) y (set_insert (<) x s)"
proof -
  have "sorted_wrt (<) (set_insert (<) x (set_insert (<) y s))"
    "sorted_wrt (<) (set_insert (<) y (set_insert (<) x s))"
    using assms by (simp_all add: sorted_set_insert_linorder)
  moreover have "set (set_insert (<) x (set_insert (<) y s)) =
      set (set_insert (<) y (set_insert (<) x s))"
    by (auto simp: set_set_insert_linorder)
  ultimately show ?thesis
    by (intro sorted_distinct_set_unique) (simp_all add: strict_sorted_iff)
qed

text \<open>
  C6. For every key, recording a use with consumer \<open>c\<close> and purpose \<open>p\<close> leaves under
  that key the record it held before (an empty one when there was none) with \<open>c\<close>
  united into \<open>usedBy\<close> and \<open>p\<close> into \<open>usedFor\<close>. Recording the same labels again
  changes nothing. No pairing is stored: recording \<open>(c, p)\<close> and \<open>(c2, p2)\<close> gives the
  very record that recording \<open>(c, p2)\<close> and \<open>(c2, p)\<close> gives.
\<close>

theorem hashDist_unpaired_sets:
  assumes "sorted_wrt (<) (usedFor r)"
  shows "map_of (hashDist_use key c p m) key =
           Some (HashDistResource_append c p
             (case map_of m key of
                None \<Rightarrow> \<lparr>usedBy = [], usedFor = []\<rparr>
              | Some r0 \<Rightarrow> r0))
       \<and> set (usedBy (HashDistResource_append c p r)) = insert c (set (usedBy r))
       \<and> set (usedFor (HashDistResource_append c p r)) = insert p (set (usedFor r))
       \<and> HashDistResource_append c p (HashDistResource_append c p r) =
           HashDistResource_append c p r
       \<and> HashDistResource_append c2 p2 (HashDistResource_append c p r) =
           HashDistResource_append c2 p (HashDistResource_append c p2 r)"
proof -
  have "set_insert (<) p2 (set_insert (<) p (usedFor r)) =
        set_insert (<) p (set_insert (<) p2 (usedFor r))"
    using assms by (rule set_insert_commute)
  then show ?thesis
    by (simp add: hashDist_use_def map_of_ordered_map_at HashDistResource_append_def
        set_set_insert_linorder set_insert_twice)
qed

theorem hashDist_unpaired_sets_witness:
  "HashDistResource_append ''T2'' ''selector''
     (HashDistResource_append ''T1'' ''meter'' \<lparr>usedBy = [], usedFor = []\<rparr>) =
   \<lparr>usedBy = [''T1'', ''T2''], usedFor = [''meter'', ''selector'']\<rparr>
   \<and> HashDistResource_append ''T2'' ''meter''
     (HashDistResource_append ''T1'' ''selector'' \<lparr>usedBy = [], usedFor = []\<rparr>) =
   \<lparr>usedBy = [''T1'', ''T2''], usedFor = [''meter'', ''selector'']\<rparr>"
proof -
  have srt: "sorted_wrt (<) (usedFor \<lparr>usedBy = [], usedFor = []\<rparr>)"
    by simp
  show ?thesis
    using hashDist_unpaired_sets [OF srt, where c = "''T1''" and p = "''meter''"
        and ?c2.0 = "''T2''" and ?p2.0 = "''selector''"]
    by (simp add: HashDistResource_append_def)
qed

section \<open>Properties of the logical id index\<close>

lemma insertLogicalId_Inr:
  assumes "insertLogicalId stage lid name ids = Inr ids'" "distinct (map fst ids)"
  shows "distinct (map fst ids')"
    and "map_of ids' lid = Some name"
    and "map_of ids k = Some v \<Longrightarrow> map_of ids' k = Some v"
proof -
  show "distinct (map fst ids')"
    using assms
    by (auto simp: insertLogicalId_def map_of_eq_None_iff split: option.splits if_splits)
  show "map_of ids' lid = Some name"
    using assms
    by (auto simp: insertLogicalId_def map_add_def split: option.splits if_splits)
  show "map_of ids k = Some v \<Longrightarrow> map_of ids' k = Some v"
    using assms
    by (auto simp: insertLogicalId_def map_add_def split: option.splits if_splits)
qed

section \<open>Properties of the traversal\<close>

lemma collectTableUsage_Inr:
  assumes "collectTableUsage s tbl srs = Inr srs'" "index_ok srs"
  shows "length srs' = length srs" and "s < length srs" and "index_ok srs'"
    and "memories (srs' ! s) = memories (srs ! s) @ [memoriesResource s tbl]"
    and "\<And>s'. s' \<noteq> s \<Longrightarrow> srs' ! s' = srs ! s'"
proof -
  from assms(1) have lt: "s < length srs"
    by (auto simp: collectTableUsage_def split: if_splits)
  from assms(1) lt obtain ids where
    ins: "insertLogicalId s (logical_id tbl s) (externalName tbl) (logicalIds (srs ! s)) = Inr ids"
    and eq: "srs' = srs[s := (srs ! s)\<lparr>logicalIds := ids,
               memories := memories (srs ! s) @ [memoriesResource s tbl]\<rparr>]"
    by (auto simp: collectTableUsage_def split: if_splits sum.splits)
  show "length srs' = length srs" using eq by simp
  show "s < length srs" by (rule lt)
  have "distinct (map fst (logicalIds (srs ! s)))"
    using assms(2) lt by (simp add: index_ok_def)
  with ins have d: "distinct (map fst ids)" by (rule insertLogicalId_Inr(1))
  show "index_ok srs'"
    unfolding index_ok_def
  proof
    fix sr assume "sr \<in> set srs'"
    then have "sr \<in> set srs \<or> sr = (srs ! s)\<lparr>logicalIds := ids,
               memories := memories (srs ! s) @ [memoriesResource s tbl]\<rparr>"
      unfolding eq using set_update_subset_insert [of srs s] by blast
    then show "distinct (map fst (logicalIds sr))"
      using assms(2) d by (auto simp: index_ok_def)
  qed
  show "memories (srs' ! s) = memories (srs ! s) @ [memoriesResource s tbl]"
    using eq lt by simp
  show "\<And>s'. s' \<noteq> s \<Longrightarrow> srs' ! s' = srs ! s'"
    using eq by simp
qed

lemma collectStages_Inr:
  "collectStages ss tbl srs = Inr srs' \<Longrightarrow> index_ok srs \<Longrightarrow> distinct ss \<Longrightarrow>
     length srs' = length srs \<and> index_ok srs' \<and> (\<forall>s\<in>set ss. s < length srs)
     \<and> (\<forall>s. memories (srs' ! s) =
           memories (srs ! s) @ (if s \<in> set ss then [memoriesResource s tbl] else []))"
proof (induction ss arbitrary: srs)
  case Nil
  then show ?case by simp
next
  case (Cons s ss)
  from Cons.prems(1) obtain mid where
    mid: "collectTableUsage s tbl srs = Inr mid"
    and rest: "collectStages ss tbl mid = Inr srs'"
    by (auto split: sum.splits)
  note step = collectTableUsage_Inr [OF mid Cons.prems(2)]
  from Cons.prems(3) have ds: "distinct ss" and ns: "s \<notin> set ss" by simp_all
  from Cons.IH [OF rest step(3) ds] have
    len: "length srs' = length mid" and ok: "index_ok srs'"
    and rng: "\<forall>s\<in>set ss. s < length mid"
    and nm: "\<And>s'. memories (srs' ! s') =
           memories (mid ! s') @ (if s' \<in> set ss then [memoriesResource s' tbl] else [])"
    by blast+
  have "memories (srs' ! s') =
           memories (srs ! s') @
             (if s' \<in> set (s # ss) then [memoriesResource s' tbl] else [])" for s'
  proof (cases "s' = s")
    case True
    with nm [of s] ns step(4) show ?thesis by simp
  next
    case False
    with nm [of s'] step(5) [of s'] show ?thesis by simp
  qed
  with len ok rng step(1,2) show ?case by simp
qed

lemma preorder_Table_Inr:
  assumes "preorder_Table tbl srs = Inr srs'" "index_ok srs"
  shows "length srs' = length srs" and "index_ok srs'"
    and "\<forall>s\<in>set (stages tbl). s < length srs"
    and "\<And>s. memories (srs' ! s) =
           memories (srs ! s) @ (if s \<in> set (stages tbl) then [memoriesResource s tbl] else [])"
  using collectStages_Inr [of "remdups (stages tbl)" tbl srs srs'] assms
  by (simp_all add: preorder_Table_def)

lemma collect_Inr:
  "collect tbls srs = Inr srs' \<Longrightarrow> index_ok srs \<Longrightarrow>
     length srs' = length srs \<and> index_ok srs'
     \<and> (\<forall>tbl\<in>set tbls. \<forall>s\<in>set (stages tbl). s < length srs)
     \<and> (\<forall>s. memories (srs' ! s) =
           memories (srs ! s) @
             map (memoriesResource s) (filter (\<lambda>tbl. s \<in> set (stages tbl)) tbls))"
proof (induction tbls arbitrary: srs)
  case Nil
  then show ?case by simp
next
  case (Cons tbl tbls)
  from Cons.prems(1) obtain mid where
    mid: "preorder_Table tbl srs = Inr mid"
    and rest: "collect tbls mid = Inr srs'"
    by (auto split: sum.splits)
  note step = preorder_Table_Inr [OF mid Cons.prems(2)]
  from Cons.IH [OF rest step(2)] step(1) have
    len: "length srs' = length srs" and ok: "index_ok srs'"
    and rng: "\<forall>tbl\<in>set tbls. \<forall>s\<in>set (stages tbl). s < length srs"
    and nm: "\<And>s. memories (srs' ! s) =
           memories (mid ! s) @
             map (memoriesResource s) (filter (\<lambda>tbl. s \<in> set (stages tbl)) tbls)"
    by simp_all
  have "memories (srs' ! s) =
           memories (srs ! s) @
             map (memoriesResource s) (filter (\<lambda>tbl. s \<in> set (stages tbl)) (tbl # tbls))" for s
    using nm [of s] step(4) [of s] by simp
  with len ok rng step(3) show ?case by simp
qed

text \<open>
  C7. In the report of a traversal that completed, every table has an entry with its name
  in the table-memory list of each stage it occupies, so a table in stages \<open>i\<close> and
  \<open>i + 1\<close> has one in both. The list of a stage holds exactly one entry for each table
  of the traversal that occupies the stage, in the order of the traversal and with the
  table's allocation for that stage, so entries are appended per occurrence and never
  merged. No logical id occurs twice in the index of a stage.
\<close>

theorem wide_table_coverage:
  assumes "collect tbls (preorder_Pipe n) = Inr report"
  shows "length report = n
       \<and> (\<forall>tbl\<in>set tbls. \<forall>s\<in>set (stages tbl).
            s < n \<and> (\<exists>e\<in>set (memories (report ! s)).
                      tableName e = cstring_string (externalName tbl)))
       \<and> (\<forall>s<n. memories (report ! s) =
            map (memoriesResource s) (filter (\<lambda>tbl. s \<in> set (stages tbl)) tbls))
       \<and> (\<forall>s<n. distinct (map fst (logicalIds (report ! s))))"
proof -
  have ok0: "index_ok (preorder_Pipe n :: ('a, 'b, 'c, 'd) StageResources list)"
    by (simp add: index_ok_def preorder_Pipe_def StageResources_empty_def)
  note inv = collect_Inr [OF assms ok0]
  from inv have len: "length report = n"
    by (simp add: preorder_Pipe_def)
  from inv have ok: "index_ok report" by blast
  from inv have rng: "\<forall>tbl\<in>set tbls. \<forall>s\<in>set (stages tbl). s < n"
    by (simp add: preorder_Pipe_def)
  have nm: "memories (report ! s) =
            map (memoriesResource s) (filter (\<lambda>tbl. s \<in> set (stages tbl)) tbls)"
    if "s < n" for s
  proof -
    from inv have "memories (report ! s) =
        memories ((preorder_Pipe n :: ('a, 'b, 'c, 'd) StageResources list) ! s) @
          map (memoriesResource s) (filter (\<lambda>tbl. s \<in> set (stages tbl)) tbls)"
      by blast
    with that show ?thesis
      by (simp add: preorder_Pipe_def StageResources_empty_def)
  qed
  have mem: "\<exists>e\<in>set (memories (report ! s)). tableName e = cstring_string (externalName tbl)"
    if "tbl \<in> set tbls" "s \<in> set (stages tbl)" for tbl s
  proof -
    from that rng have "s < n" by blast
    then have "memoriesResource s tbl \<in> set (memories (report ! s))"
      using that by (simp add: nm)
    moreover have "tableName (memoriesResource s tbl) = cstring_string (externalName tbl)"
      by (simp add: memoriesResource_def)
    ultimately show ?thesis by blast
  qed
  have "\<forall>s<n. distinct (map fst (logicalIds (report ! s)))"
    using ok len by (simp add: index_ok_def)
  with len rng nm mem show ?thesis by blast
qed

theorem wide_table_coverage_witness:
  "\<exists>report.
     collect
       [\<lparr>node = (), externalName = Some ''T3'', gateway_name = [], stages = [0, 1],
         logical_id = (\<lambda>s. 5), resources = (\<lambda>s. ())\<rparr>]
       (preorder_Pipe 2 :: (unit, unit, unit, unit) StageResources list) = Inr report
     \<and> map tableName (memories (report ! 0)) = [''T3'']
     \<and> map tableName (memories (report ! 1)) = [''T3'']
     \<and> distinct (map fst (logicalIds (report ! 0)))
     \<and> distinct (map fst (logicalIds (report ! 1)))"
proof -
  let ?T3 = "\<lparr>node = (), externalName = Some ''T3'', gateway_name = [], stages = [0, 1],
         logical_id = (\<lambda>s. 5 :: cxx_int), resources = (\<lambda>s. ())\<rparr>"
  obtain report where run:
    "collect [?T3] (preorder_Pipe 2 :: (unit, unit, unit, unit) StageResources list) = Inr report"
    by (simp add: preorder_Pipe_def preorder_Table_def collectTableUsage_def
        insertLogicalId_def StageResources_empty_def numeral_2_eq_2)
  have name: "cstring_string (Some ''T3'') = ''T3''"
    by (simp add: cstring_string_def strlen_def c_mem_def NUL_def)
  from wide_table_coverage [OF run] have
    "\<forall>s<2. memories (report ! s) =
       map (memoriesResource s) (filter (\<lambda>tbl. s \<in> set (stages tbl)) [?T3])"
    and "\<forall>s<2. distinct (map fst (logicalIds (report ! s)))"
    by blast+
  then have "map tableName (memories (report ! 0)) = [''T3'']"
    and "map tableName (memories (report ! 1)) = [''T3'']"
    and "distinct (map fst (logicalIds (report ! 0)))"
    and "distinct (map fst (logicalIds (report ! 1)))"
    using name by (simp_all add: memoriesResource_def)
  with run show ?thesis by (intro exI [of _ report]) simp
qed

section \<open>Properties of the logical id index in a traversal\<close>

lemma insertLogicalId_set:
  "insertLogicalId stage lid name ids = Inr ids' \<Longrightarrow> set ids' = insert (lid, name) (set ids)"
  by (auto simp: insertLogicalId_def split: option.splits if_splits dest: map_of_SomeD)

lemma insertLogicalId_Inl:
  "insertLogicalId stage lid name ids = Inl bug \<Longrightarrow>
     \<exists>other. bug = DuplicateLogicalId stage lid other name \<and> other \<noteq> name
       \<and> (lid, other) \<in> set ids"
  by (auto simp: insertLogicalId_def split: option.splits if_splits dest: map_of_SomeD)

lemma collectTableUsage_index:
  assumes "collectTableUsage s tbl srs = Inr srs'"
  shows "set (logicalIds (srs' ! s)) =
           insert (logical_id tbl s, externalName tbl) (set (logicalIds (srs ! s)))"
proof -
  from assms have lt: "s < length srs"
    by (auto simp: collectTableUsage_def split: if_splits)
  from assms lt obtain ids where
    ins: "insertLogicalId s (logical_id tbl s) (externalName tbl) (logicalIds (srs ! s)) = Inr ids"
    and eq: "logicalIds (srs' ! s) = ids"
    by (auto simp: collectTableUsage_def split: if_splits sum.splits)
  from insertLogicalId_set [OF ins] eq show ?thesis by simp
qed

lemma collectTableUsage_Inl:
  assumes "collectTableUsage s tbl srs = Inl bug" "s < length srs"
  shows "\<exists>other. bug = DuplicateLogicalId s (logical_id tbl s) other (externalName tbl)
           \<and> other \<noteq> externalName tbl
           \<and> (logical_id tbl s, other) \<in> set (logicalIds (srs ! s))"
proof -
  from assms have
    "insertLogicalId s (logical_id tbl s) (externalName tbl) (logicalIds (srs ! s)) = Inl bug"
    by (auto simp: collectTableUsage_def split: if_splits sum.splits)
  then show ?thesis by (rule insertLogicalId_Inl)
qed

lemma collectStages_index:
  "collectStages ss tbl srs = Inr srs' \<Longrightarrow> index_ok srs \<Longrightarrow>
     set (logicalIds (srs' ! s)) =
       set (logicalIds (srs ! s)) \<union>
         (if s \<in> set ss then {(logical_id tbl s, externalName tbl)} else {})"
proof (induction ss arbitrary: srs)
  case Nil
  then show ?case by simp
next
  case (Cons a ss)
  from Cons.prems(1) obtain mid where
    mid: "collectTableUsage a tbl srs = Inr mid"
    and rest: "collectStages ss tbl mid = Inr srs'"
    by (auto split: sum.splits)
  note step = collectTableUsage_Inr [OF mid Cons.prems(2)]
  note ih = Cons.IH [OF rest step(3)]
  show ?case
  proof (cases "s = a")
    case True
    with ih collectTableUsage_index [OF mid] show ?thesis by auto
  next
    case False
    with ih step(5) [of s] show ?thesis by auto
  qed
qed

lemma collect_index:
  "collect tbls srs = Inr srs' \<Longrightarrow> index_ok srs \<Longrightarrow>
     set (logicalIds (srs' ! s)) = set (logicalIds (srs ! s)) \<union> claims_of tbls s"
proof (induction tbls arbitrary: srs)
  case Nil
  then show ?case by (simp add: claims_of_def)
next
  case (Cons tbl tbls)
  from Cons.prems(1) obtain mid where
    mid: "preorder_Table tbl srs = Inr mid"
    and rest: "collect tbls mid = Inr srs'"
    by (auto split: sum.splits)
  note step = preorder_Table_Inr [OF mid Cons.prems(2)]
  have "set (logicalIds (mid ! s)) =
       set (logicalIds (srs ! s)) \<union>
         (if s \<in> set (stages tbl) then {(logical_id tbl s, externalName tbl)} else {})"
    using collectStages_index [of "remdups (stages tbl)" tbl srs mid s] mid Cons.prems(2)
    by (simp add: preorder_Table_def)
  with Cons.IH [OF rest step(2)] show ?case
    by (auto simp: claims_of_def)
qed

lemma collectStages_Inl:
  "collectStages ss tbl srs = Inl bug \<Longrightarrow> index_ok srs \<Longrightarrow> distinct ss \<Longrightarrow>
     \<forall>s\<in>set ss. s < length srs \<Longrightarrow>
     \<exists>s\<in>set ss. \<exists>other. bug = DuplicateLogicalId s (logical_id tbl s) other (externalName tbl)
           \<and> other \<noteq> externalName tbl
           \<and> (logical_id tbl s, other) \<in> set (logicalIds (srs ! s))"
proof (induction ss arbitrary: srs)
  case Nil
  then show ?case by simp
next
  case (Cons a ss)
  show ?case
  proof (cases "collectTableUsage a tbl srs")
    case (Inl b)
    with Cons.prems(1) have "b = bug" by simp
    with Inl Cons.prems(4) collectTableUsage_Inl [of a tbl srs bug] show ?thesis by auto
  next
    case (Inr mid)
    with Cons.prems(1) have rest: "collectStages ss tbl mid = Inl bug" by simp
    note step = collectTableUsage_Inr [OF Inr Cons.prems(2)]
    from Cons.prems(3) have ds: "distinct ss" and ns: "a \<notin> set ss" by simp_all
    from Cons.prems(4) step(1) have rng: "\<forall>s\<in>set ss. s < length mid" by simp
    from Cons.IH [OF rest step(3) ds rng] obtain s other where
      s: "s \<in> set ss" and b: "bug = DuplicateLogicalId s (logical_id tbl s) other (externalName tbl)"
      and o: "other \<noteq> externalName tbl"
      and m: "(logical_id tbl s, other) \<in> set (logicalIds (mid ! s))"
      by blast
    from s ns have "s \<noteq> a" by blast
    with step(5) [of s] m have "(logical_id tbl s, other) \<in> set (logicalIds (srs ! s))"
      by simp
    with s b o show ?thesis by auto
  qed
qed

lemma collect_Inl:
  "collect tbls srs = Inl bug \<Longrightarrow> index_ok srs \<Longrightarrow>
     \<forall>tbl\<in>set tbls. \<forall>s\<in>set (stages tbl). s < length srs \<Longrightarrow>
     \<exists>tbl\<in>set tbls. \<exists>s\<in>set (stages tbl). \<exists>other.
        bug = DuplicateLogicalId s (logical_id tbl s) other (externalName tbl)
      \<and> other \<noteq> externalName tbl
      \<and> (logical_id tbl s, other) \<in> set (logicalIds (srs ! s)) \<union> claims_of tbls s"
proof (induction tbls arbitrary: srs)
  case Nil
  then show ?case by simp
next
  case (Cons tbl tbls)
  show ?case
  proof (cases "preorder_Table tbl srs")
    case (Inl b)
    with Cons.prems(1) have "b = bug" by simp
    with Inl have "collectStages (remdups (stages tbl)) tbl srs = Inl bug"
      by (simp add: preorder_Table_def)
    from collectStages_Inl [OF this Cons.prems(2)] Cons.prems(3)
    show ?thesis by auto
  next
    case (Inr mid)
    with Cons.prems(1) have rest: "collect tbls mid = Inl bug" by simp
    note step = preorder_Table_Inr [OF Inr Cons.prems(2)]
    from Cons.prems(3) step(1) have
      rng: "\<forall>tbl\<in>set tbls. \<forall>s\<in>set (stages tbl). s < length mid" by simp
    from Cons.IH [OF rest step(2) rng] obtain t s other where
      t: "t \<in> set tbls" and s: "s \<in> set (stages t)"
      and b: "bug = DuplicateLogicalId s (logical_id t s) other (externalName t)"
      and o: "other \<noteq> externalName t"
      and m: "(logical_id t s, other) \<in> set (logicalIds (mid ! s)) \<union> claims_of tbls s"
      by blast
    have "set (logicalIds (mid ! s)) =
       set (logicalIds (srs ! s)) \<union>
         (if s \<in> set (stages tbl) then {(logical_id tbl s, externalName tbl)} else {})"
      using collectStages_index [of "remdups (stages tbl)" tbl srs mid s] Inr Cons.prems(2)
      by (simp add: preorder_Table_def)
    with m have "(logical_id t s, other) \<in>
        set (logicalIds (srs ! s)) \<union> claims_of (tbl # tbls) s"
      by (auto simp: claims_of_def split: if_splits)
    with t s b o show ?thesis by auto
  qed
qed

text \<open>
  C4. A traversal in which two tables of different names claim the same logical id in a
  stage they both occupy is fatal: it returns no report. When every stage of every table
  exists, a fatal traversal ends with the diagnostic of such a pair: the stage, the logical
  id, the table already holding it and the table being inserted. In the report of a
  traversal that completed, the index of a stage holds no logical id twice, its entries are
  exactly the (logical id, name) pairs of the tables occupying the stage, and, tables being
  told apart by their names, the map from logical ids to table names is injective.
\<close>

theorem duplicate_logical_id_fatal:
  fixes tbls :: "('t, 'u) Table list" and report :: "('b, 'g, 't, 'u) StageResources list"
  shows
    "((\<exists>t1\<in>set tbls. \<exists>t2\<in>set tbls. \<exists>s\<in>set (stages t1) \<inter> set (stages t2).
         logical_id t1 s = logical_id t2 s \<and> externalName t1 \<noteq> externalName t2)
       \<longrightarrow> (\<exists>bug. collect tbls (preorder_Pipe n :: ('b, 'g, 't, 'u) StageResources list) =
              Inl bug))
   \<and> (collect tbls (preorder_Pipe n :: ('b, 'g, 't, 'u) StageResources list) = Inl bug
        \<and> (\<forall>t\<in>set tbls. \<forall>s\<in>set (stages t). s < n)
       \<longrightarrow> (\<exists>t1\<in>set tbls. \<exists>t2\<in>set tbls. \<exists>s\<in>set (stages t1) \<inter> set (stages t2).
              logical_id t1 s = logical_id t2 s \<and> externalName t1 \<noteq> externalName t2
            \<and> bug = DuplicateLogicalId s (logical_id t2 s) (externalName t1) (externalName t2)))
   \<and> (collect tbls (preorder_Pipe n) = Inr report
       \<longrightarrow> (\<forall>s<n.
              distinct (map fst (logicalIds (report ! s)))
            \<and> set (logicalIds (report ! s)) =
                {(logical_id t s, externalName t) | t. t \<in> set tbls \<and> s \<in> set (stages t)}
            \<and> (inj_on externalName (set tbls)
                \<longrightarrow> inj_on (map_of (logicalIds (report ! s)))
                      (dom (map_of (logicalIds (report ! s)))))))"
proof -
  let ?start = "preorder_Pipe n :: ('b, 'g, 't, 'u) StageResources list"
  have ok0: "index_ok ?start"
    by (simp add: index_ok_def preorder_Pipe_def StageResources_empty_def)
  have empty0: "set (logicalIds (?start ! s)) = {}" if "s < n" for s
    using that by (simp add: preorder_Pipe_def StageResources_empty_def)
  have len0: "length ?start = n" by (simp add: preorder_Pipe_def)
  \<comment> \<open>a completed run\<close>
  have completed: "distinct (map fst (logicalIds (rep ! s)))
            \<and> set (logicalIds (rep ! s)) = claims_of tbls s"
    if run: "collect tbls ?start = Inr rep" and s: "s < n" for rep s
  proof -
    note inv = collect_Inr [OF run ok0]
    from inv len0 have "length rep = n" by simp
    moreover from inv have "index_ok rep" by blast
    ultimately have "distinct (map fst (logicalIds (rep ! s)))"
      using s by (simp add: index_ok_def)
    moreover have "set (logicalIds (rep ! s)) = claims_of tbls s"
      using collect_index [OF run ok0, of s] empty0 [OF s] by simp
    ultimately show ?thesis by simp
  qed
  have in_range: "s < n"
    if "collect tbls ?start = Inr rep" "t \<in> set tbls" "s \<in> set (stages t)" for rep t s
    using collect_Inr [OF that(1) ok0] that(2,3) len0 by auto
  \<comment> \<open>a conflict is fatal\<close>
  have fatal: "\<exists>bug. collect tbls ?start = Inl bug"
    if t1: "t1 \<in> set tbls" and t2: "t2 \<in> set tbls"
      and s1: "s \<in> set (stages t1)" and s2: "s \<in> set (stages t2)"
      and same: "logical_id t1 s = logical_id t2 s"
      and diff: "externalName t1 \<noteq> externalName t2" for t1 t2 s
  proof (cases "collect tbls ?start")
    case (Inl bug)
    then show ?thesis by blast
  next
    case (Inr rep)
    from in_range [OF Inr t1 s1] have s: "s < n" .
    from completed [OF Inr s] have d: "distinct (map fst (logicalIds (rep ! s)))"
      and c: "set (logicalIds (rep ! s)) = claims_of tbls s" by simp_all
    from t1 s1 c have "(logical_id t1 s, externalName t1) \<in> set (logicalIds (rep ! s))"
      by (auto simp: claims_of_def)
    moreover from t2 s2 c same
    have "(logical_id t1 s, externalName t2) \<in> set (logicalIds (rep ! s))"
      by (auto simp: claims_of_def)
    ultimately have "externalName t1 = externalName t2"
      using d by (rule eq_key_imp_eq_value [rotated])
    with diff show ?thesis by simp
  qed
  \<comment> \<open>the diagnostic\<close>
  have diag: "\<exists>t1\<in>set tbls. \<exists>t2\<in>set tbls. \<exists>s\<in>set (stages t1) \<inter> set (stages t2).
              logical_id t1 s = logical_id t2 s \<and> externalName t1 \<noteq> externalName t2
            \<and> bug = DuplicateLogicalId s (logical_id t2 s) (externalName t1) (externalName t2)"
    if run: "collect tbls ?start = Inl bug"
      and rng: "\<forall>t\<in>set tbls. \<forall>s\<in>set (stages t). s < n"
  proof -
    from rng len0 have "\<forall>t\<in>set tbls. \<forall>s\<in>set (stages t). s < length ?start" by simp
    from collect_Inl [OF run ok0 this] obtain t2 s other where
      t2: "t2 \<in> set tbls" and s2: "s \<in> set (stages t2)"
      and b: "bug = DuplicateLogicalId s (logical_id t2 s) other (externalName t2)"
      and o: "other \<noteq> externalName t2"
      and m: "(logical_id t2 s, other) \<in> set (logicalIds (?start ! s)) \<union> claims_of tbls s"
      by blast
    from rng t2 s2 have "s < n" by blast
    with m empty0 have "(logical_id t2 s, other) \<in> claims_of tbls s" by simp
    then obtain t1 where t1: "t1 \<in> set tbls" and s1: "s \<in> set (stages t1)"
      and l: "logical_id t1 s = logical_id t2 s" and e: "externalName t1 = other"
      by (auto simp: claims_of_def)
    with t2 s2 b o show ?thesis by blast
  qed
  \<comment> \<open>the index of a completed run\<close>
  have inj: "inj_on (map_of (logicalIds (rep ! s))) (dom (map_of (logicalIds (rep ! s))))"
    if run: "collect tbls ?start = Inr rep" and s: "s < n"
      and names: "inj_on externalName (set tbls)" for rep s
  proof (rule inj_onI)
    fix x y
    assume x: "x \<in> dom (map_of (logicalIds (rep ! s)))"
      and eq: "map_of (logicalIds (rep ! s)) x = map_of (logicalIds (rep ! s)) y"
    from x obtain nm where nx: "map_of (logicalIds (rep ! s)) x = Some nm" by blast
    with eq have ny: "map_of (logicalIds (rep ! s)) y = Some nm" by simp
    from completed [OF run s] have c: "set (logicalIds (rep ! s)) = claims_of tbls s" by simp
    from nx ny c have "(x, nm) \<in> claims_of tbls s" "(y, nm) \<in> claims_of tbls s"
      by (auto dest: map_of_SomeD)
    then obtain t t' where "t \<in> set tbls" "t' \<in> set tbls"
      "x = logical_id t s" "y = logical_id t' s" "externalName t = nm" "externalName t' = nm"
      by (auto simp: claims_of_def)
    with names show "x = y" by (auto dest: inj_onD)
  qed
  have third: "\<forall>s<n.
              distinct (map fst (logicalIds (report ! s)))
            \<and> set (logicalIds (report ! s)) =
                {(logical_id t s, externalName t) | t. t \<in> set tbls \<and> s \<in> set (stages t)}
            \<and> (inj_on externalName (set tbls)
                \<longrightarrow> inj_on (map_of (logicalIds (report ! s)))
                      (dom (map_of (logicalIds (report ! s)))))"
    if run: "collect tbls ?start = Inr report"
    using completed [OF run] inj [OF run] by (simp add: claims_of_def)
  from fatal diag third show ?thesis by blast
qed

theorem duplicate_logical_id_fatal_witness:
  "collect
     [\<lparr>node = (), externalName = Some ''T1'', gateway_name = [], stages = [0],
       logical_id = (\<lambda>s. 3), resources = (\<lambda>s. ())\<rparr>,
      \<lparr>node = (), externalName = Some ''T9'', gateway_name = [], stages = [0],
       logical_id = (\<lambda>s. 3), resources = (\<lambda>s. ())\<rparr>]
     (preorder_Pipe 1 :: (unit, unit, unit, unit) StageResources list) =
   Inl (DuplicateLogicalId 0 3 (Some ''T1'') (Some ''T9''))
   \<and> (\<exists>report.
        collect
          [\<lparr>node = (), externalName = Some ''T1'', gateway_name = [], stages = [0],
            logical_id = (\<lambda>s. 3), resources = (\<lambda>s. ())\<rparr>,
           \<lparr>node = (), externalName = Some ''T2'', gateway_name = [], stages = [0],
            logical_id = (\<lambda>s. 0), resources = (\<lambda>s. ())\<rparr>]
          (preorder_Pipe 1 :: (unit, unit, unit, unit) StageResources list) = Inr report
      \<and> logicalIds (report ! 0) = [(3, Some ''T1''), (0, Some ''T2'')]
      \<and> inj_on (map_of (logicalIds (report ! 0))) (dom (map_of (logicalIds (report ! 0)))))"
proof -
  let ?T1 = "\<lparr>node = (), externalName = Some ''T1'', gateway_name = [], stages = [0 :: nat],
       logical_id = (\<lambda>s. 3 :: cxx_int), resources = (\<lambda>s. ())\<rparr>"
  let ?T9 = "\<lparr>node = (), externalName = Some ''T9'', gateway_name = [], stages = [0 :: nat],
       logical_id = (\<lambda>s. 3 :: cxx_int), resources = (\<lambda>s. ())\<rparr>"
  let ?T2 = "\<lparr>node = (), externalName = Some ''T2'', gateway_name = [], stages = [0 :: nat],
       logical_id = (\<lambda>s. 0 :: cxx_int), resources = (\<lambda>s. ())\<rparr>"
  let ?start = "preorder_Pipe 1 :: (unit, unit, unit, unit) StageResources list"
  have bad: "collect [?T1, ?T9] ?start = Inl (DuplicateLogicalId 0 3 (Some ''T1'') (Some ''T9''))"
    by (simp add: preorder_Pipe_def preorder_Table_def collectTableUsage_def
        insertLogicalId_def StageResources_empty_def)
  obtain report where run: "collect [?T1, ?T2] ?start = Inr report"
    and idx: "logicalIds (report ! 0) = [(3, Some ''T1''), (0, Some ''T2'')]"
    by (simp add: preorder_Pipe_def preorder_Table_def collectTableUsage_def
        insertLogicalId_def StageResources_empty_def)
  have names: "inj_on externalName (set [?T1, ?T2])" by simp
  from duplicate_logical_id_fatal [where tbls = "[?T1, ?T2]" and n = 1 and report = report]
    run names
  have "inj_on (map_of (logicalIds (report ! 0))) (dom (map_of (logicalIds (report ! 0))))"
    by blast
  with bad run idx show ?thesis by (intro conjI exI [of _ report]) simp_all
qed

section \<open>Properties of marshal.cpp\<close>

text \<open>
  C9. With a generator and a loader that read back what was emitted under a key, for every
  \<open>MarshaledFrom\<close> value \<open>m\<close>, every document \<open>json\<close> that \<open>toJSON\<close> continues and
  every default value \<open>rv0\<close>, \<open>fromJSON\<close> of the document \<open>toJSON\<close> produced has the
  \<open>gress\<close>, \<open>field_name\<close> and \<open>pre_padding\<close> of \<open>m\<close>.
\<close>

theorem MarshaledFrom_roundtrip:
  assumes "reads_back emit_g load_g" "reads_back emit_f load_f" "reads_back emit_p load_p"
    and "passes_over emit_f load_g" "passes_over emit_p load_g" "passes_over emit_p load_f"
  shows "gress (fromJSON load_g load_f load_p rv0 (toJSON emit_g emit_f emit_p m json)) = gress m
       \<and> field_name (fromJSON load_g load_f load_p rv0 (toJSON emit_g emit_f emit_p m json)) =
           field_name m
       \<and> pre_padding (fromJSON load_g load_f load_p rv0 (toJSON emit_g emit_f emit_p m json)) =
           pre_padding m"
  using assms by (simp add: fromJSON_def toJSON_def reads_back_def passes_over_def)

theorem MarshaledFrom_roundtrip_witness:
  "fromJSON
     (\<lambda>key json old. case map_of json key of Some (Inl n) \<Rightarrow> n = 1 | _ \<Rightarrow> old)
     (\<lambda>key json old. case map_of json key of Some (Inr s) \<Rightarrow> s | _ \<Rightarrow> old)
     (\<lambda>key json old. case map_of json key of Some (Inl n) \<Rightarrow> n | _ \<Rightarrow> old)
     \<lparr>gress = False, field_name = [], pre_padding = 0\<rparr>
     (toJSON
        (\<lambda>key g json. (key, Inl (if g then 1 else 0)) # json)
        (\<lambda>key s json. (key, Inr s) # json)
        (\<lambda>key n json. (key, Inl n) # json)
        \<lparr>gress = True, field_name = ''hdr.f'', pre_padding = 3 :: nat\<rparr> []) =
   \<lparr>gress = True, field_name = ''hdr.f'', pre_padding = 3\<rparr>"
proof -
  let ?load_g = "\<lambda>key json old. case map_of json key of Some (Inl n) \<Rightarrow> n = (1 :: nat) | _ \<Rightarrow> old"
  let ?load_f = "\<lambda>key json old. case map_of json key of Some (Inr s) \<Rightarrow> (s :: string) | _ \<Rightarrow> old"
  let ?load_p = "\<lambda>key json old. case map_of json key of Some (Inl n) \<Rightarrow> (n :: nat) | _ \<Rightarrow> old"
  let ?emit_g = "\<lambda>key g json. (key :: string, Inl (if g then 1 else 0) :: nat + string) # json"
  let ?emit_f = "\<lambda>key s json. (key :: string, Inr s :: nat + string) # json"
  let ?emit_p = "\<lambda>key n json. (key :: string, Inl n :: nat + string) # json"
  have rb: "reads_back ?emit_g ?load_g" "reads_back ?emit_f ?load_f" "reads_back ?emit_p ?load_p"
    by (simp_all add: reads_back_def)
  have po: "passes_over ?emit_f ?load_g" "passes_over ?emit_p ?load_g"
    "passes_over ?emit_p ?load_f"
    by (simp_all add: passes_over_def)
  show ?thesis
    using MarshaledFrom_roundtrip [OF rb po,
        of "\<lparr>gress = False, field_name = [], pre_padding = 0\<rparr>"
          "\<lparr>gress = True, field_name = ''hdr.f'', pre_padding = 3\<rparr>" "[]"]
    by (simp add: fromJSON_def toJSON_def)
qed

end
